theory Spec2Isabelle
  imports Main "HOL-Library.Sublist" "HOL-Library.AList" "HOL-Library.Word"
begin

section \<open>Keys\<close>

text \<open>
  Package \<open>key\<close> (the \<open>Key\<close> interface, \<open>key.New\<close>, \<open>key.Path\<close>) and the
  \<open>Wildcard\<close> variable of package \<open>path\<close> are used by \<open>path.go\<close> and by the Map
  tests, but their declarations are not among the sources. They are modelled from
  the specification (sections 3, 4.1 and 9) and from what the test file shows of them.

  A natively comparable Go value. \<open>NWildcard\<close> stands for the value of the type of its
  own that the \<open>Wildcard\<close> sentinel wraps: a comparable value that is not a string and
  that is equal to itself only.
\<close>

datatype native = NBool bool | NInt int | NStr string | NWildcard

text \<open>
  A caller's custom Hashable, after \<open>dumbHashable\<close> of the test file
  (\<open>type dumbHashable struct { dumb interface{} }\<close>): \<open>Equal\<close> compares the \<open>dumb\<close>
  fields, \<open>Hash\<close> returns the hash the type declares. The test's type always hashes
  to 1234567890; the model carries the hash in the value so that keys of several
  buckets exist.
\<close>

datatype hashable = Hashable (Hash: "64 word") (dumb: native)

definition Equal_hashable :: "hashable \<Rightarrow> hashable \<Rightarrow> bool" where
  "Equal_hashable d o' = (dumb d = dumb o')"

text \<open>
  Modelled from the spec: the Key variant (section 4.1, design note 9): a native Key
  wraps a comparable scalar, a custom Key wraps a Hashable whose own methods decide
  equality. A Key is never nil. Keys backed by a nested Map are outside the model:
  no claim is about them.
\<close>

datatype key = Native native | Custom hashable

text \<open>Modelled from the spec: \<open>key.New\<close> on a comparable scalar wraps it as a native Key.\<close>

definition New_key :: "native \<Rightarrow> key" where
  "New_key v = Native v"

text \<open>
  Modelled from the spec: \<open>b.Equal(a)\<close> is \<open>Key_Equal b a\<close>. Native Keys compare by
  native equality of the wrapped values, custom Keys by their own \<open>Equal\<close>; a native
  Key and a custom Key are never equal.
\<close>

fun Key_Equal :: "key \<Rightarrow> key \<Rightarrow> bool" where
  "Key_Equal (Native x) (Native y) = (x = y)"
| "Key_Equal (Custom d) (Custom e) = Equal_hashable d e"
| "Key_Equal (Native x) (Custom e) = False"
| "Key_Equal (Custom d) (Native y) = False"

text \<open>\<open>k.Key().(string)\<close>: the wrapped value when it is a string, \<open>None\<close> when the
  type assertion fails.\<close>

fun Key_string :: "key \<Rightarrow> string option" where
  "Key_string (Native (NStr s)) = Some s"
| "Key_string k = None"

text \<open>Modelled from the spec: the Wildcard sentinel, a Key that behaves as an ordinary
  Key under plain equality.\<close>

definition Wildcard :: key where
  "Wildcard = New_key NWildcard"

text \<open>A \<open>key.Path\<close> read as the sequence of its elements.\<close>

type_synonym path = "key list"

section \<open>Run-time panics\<close>

datatype panic = IndexOutOfRange | SliceBoundsOutOfRange | NilDereference

text \<open>\<open>xs[i]\<close>: Go panics when the index is out of range.\<close>

definition index :: "'a list \<Rightarrow> nat \<Rightarrow> panic + 'a" where
  "index xs i = (if i < length xs then Inr (xs ! i) else Inl IndexOutOfRange)"

section \<open>Path predicates (path.go)\<close>

text \<open>\<open>Parent\<close>: \<open>path[:len(path)-1]\<close> for a non-empty path, nil (no elements) otherwise.\<close>

definition Parent :: "path \<Rightarrow> path" where
  "Parent p = (if length p > 0 then take (length p - 1) p else [])"

text \<open>\<open>Base\<close>: the last element, or nil (\<open>None\<close>) for an empty path.\<close>

definition Base :: "path \<Rightarrow> key option" where
  "Base p = (if length p > 0 then Some (p ! (length p - 1)) else None)"

text \<open>
  \<open>hasPrefix\<close>: \<open>for i := range b { if !b[i].Equal(a[i]) { return false } }; return true\<close>.
  The loop is run from index \<open>i\<close> over the elements of \<open>b\<close> that remain; \<open>a[i]\<close>
  panics past the end of \<open>a\<close>.
\<close>

fun hasPrefix_from :: "nat \<Rightarrow> path \<Rightarrow> path \<Rightarrow> panic + bool" where
  "hasPrefix_from i a [] = Inr True"
| "hasPrefix_from i a (bi # rest) =
     (case index a i of
        Inl p \<Rightarrow> Inl p
      | Inr ai \<Rightarrow> if \<not> Key_Equal bi ai then Inr False else hasPrefix_from (Suc i) a rest)"

definition hasPrefix :: "path \<Rightarrow> path \<Rightarrow> panic + bool" where
  "hasPrefix a b = hasPrefix_from 0 a b"

text \<open>\<open>strings.HasPrefix(s, prefix)\<close> of the Go library:
  \<open>len(s) >= len(prefix) && s[:len(prefix)] == prefix\<close>.\<close>

definition strings_HasPrefix :: "string \<Rightarrow> string \<Rightarrow> bool" where
  "strings_HasPrefix s pre = (length s \<ge> length pre \<and> take (length pre) s = pre)"

definition compareElementString :: "key \<Rightarrow> key \<Rightarrow> bool" where
  "compareElementString a b =
     (case (Key_string a, Key_string b) of
        (Some aStr, Some bStr) \<Rightarrow> strings_HasPrefix aStr bStr
      | _ \<Rightarrow> Key_Equal b a)"

text \<open>In \<open>compareElementString(a[len(b)-1], Base(b))\<close> the index expression is evaluated
  first; a nil \<open>Base(b)\<close> would panic at \<open>b.Key()\<close>.\<close>

definition hasPrefixString :: "path \<Rightarrow> path \<Rightarrow> panic + bool" where
  "hasPrefixString a b =
     (if length b = 0 then Inr True
      else case hasPrefix (Parent a) (Parent b) of
        Inl p \<Rightarrow> Inl p
      | Inr ok \<Rightarrow>
          if \<not> ok then Inr False
          else (case index a (length b - 1) of
                  Inl p \<Rightarrow> Inl p
                | Inr aKey \<Rightarrow>
                    (case Base b of
                       None \<Rightarrow> Inl NilDereference
                     | Some bKey \<Rightarrow> Inr (compareElementString aKey bKey))))"

fun matchPrefix_from :: "nat \<Rightarrow> path \<Rightarrow> path \<Rightarrow> panic + bool" where
  "matchPrefix_from i a [] = Inr True"
| "matchPrefix_from i a (bi # rest) =
     (case index a i of
        Inl p \<Rightarrow> Inl p
      | Inr ai \<Rightarrow>
          if \<not> Key_Equal ai Wildcard \<and> \<not> Key_Equal bi ai then Inr False
          else matchPrefix_from (Suc i) a rest)"

definition matchPrefix :: "path \<Rightarrow> path \<Rightarrow> panic + bool" where
  "matchPrefix a b = matchPrefix_from 0 a b"

definition matchPrefixString :: "path \<Rightarrow> path \<Rightarrow> panic + bool" where
  "matchPrefixString a b =
     (if length b = 0 then Inr True
      else case matchPrefix (Parent a) (Parent b) of
        Inl p \<Rightarrow> Inl p
      | Inr ok \<Rightarrow>
          if \<not> ok then Inr False
          else (case index a (length b - 1) of
                  Inl p \<Rightarrow> Inl p
                | Inr aKey \<Rightarrow>
                    if Key_Equal aKey Wildcard then Inr True
                    else (case Base b of
                            None \<Rightarrow> Inl NilDereference
                          | Some bKey \<Rightarrow> Inr (compareElementString aKey bKey))))"

text \<open>The exported predicates: \<open>&&\<close> evaluates its right operand only when the length
  test holds.\<close>

definition Equal :: "path \<Rightarrow> path \<Rightarrow> panic + bool" where
  "Equal a b = (if length a = length b then hasPrefix a b else Inr False)"

definition HasPrefix :: "path \<Rightarrow> path \<Rightarrow> panic + bool" where
  "HasPrefix a b = (if length a \<ge> length b then hasPrefix a b else Inr False)"

definition HasPrefixString :: "path \<Rightarrow> path \<Rightarrow> panic + bool" where
  "HasPrefixString a b = (if length a \<ge> length b then hasPrefixString a b else Inr False)"

definition Match :: "path \<Rightarrow> path \<Rightarrow> panic + bool" where
  "Match a b = (if length a = length b then matchPrefix a b else Inr False)"

definition MatchPrefix :: "path \<Rightarrow> path \<Rightarrow> panic + bool" where
  "MatchPrefix a b = (if length a \<ge> length b then matchPrefix a b else Inr False)"

definition MatchPrefixString :: "path \<Rightarrow> path \<Rightarrow> panic + bool" where
  "MatchPrefixString a b = (if length a \<ge> length b then matchPrefixString a b else Inr False)"

section \<open>Slices and their backing arrays\<close>

text \<open>
  A Go slice is a view of a backing array: the array, the offset of the slice's first
  element in it and the slice's length; several slices may share one array, and the
  nil slice has no array. The heap lists the arrays allocated so far, an array's
  address being its position in the list, so that an address is fresh exactly when it
  is \<open>length h\<close>. A cell of an array of Keys holds a Key or nil (\<open>None\<close>), the zero value
  that \<open>make\<close> leaves in every cell.
\<close>

type_synonym heap = "key option list list"

datatype slice = NilSlice | Slice nat nat nat

fun len :: "slice \<Rightarrow> nat" where
  "len NilSlice = 0"
| "len (Slice a off n) = n"

text \<open>The elements of a slice, in order.\<close>

fun elems :: "heap \<Rightarrow> slice \<Rightarrow> key option list" where
  "elems h NilSlice = []"
| "elems h (Slice a off n) = take n (drop off (h ! a))"

text \<open>A slice of the heap: its array is allocated and the view lies inside it.\<close>

fun slice_ok :: "heap \<Rightarrow> slice \<Rightarrow> bool" where
  "slice_ok h NilSlice = True"
| "slice_ok h (Slice a off n) = (a < length h \<and> off + n \<le> length (h ! a))"

text \<open>\<open>make(key.Path, n)\<close>: a new array of \<open>n\<close> nil cells and the slice of all of it.\<close>

definition make :: "heap \<Rightarrow> nat \<Rightarrow> slice \<times> heap" where
  "make h n = (Slice (length h) 0 n, h @ [replicate n None])"

text \<open>\<open>dest[i] = v\<close>: panics when \<open>i\<close> is not below the length of the slice.\<close>

fun set_elem :: "heap \<Rightarrow> slice \<Rightarrow> nat \<Rightarrow> key option \<Rightarrow> panic + heap" where
  "set_elem h NilSlice i v = Inl IndexOutOfRange"
| "set_elem h (Slice a off n) i v =
     (if i < n then Inr (h[a := (h ! a)[off + i := v]]) else Inl IndexOutOfRange)"


text \<open>Writing the cells \<open>xs\<close> into an array from position \<open>pos\<close> on.\<close>

definition overwrite :: "'a list \<Rightarrow> nat \<Rightarrow> 'a list \<Rightarrow> 'a list" where
  "overwrite cells pos xs = take pos cells @ xs @ drop (pos + length xs) cells"


text \<open>An argument of type \<open>interface{}\<close>: a \<open>key.Key\<close>, or a value for \<open>key.New\<close>.\<close>

datatype element = KeyElem key | ValueElem native

text \<open>The type switch of \<open>copyElements\<close>.\<close>

fun wrap :: "element \<Rightarrow> key" where
  "wrap (KeyElem val) = val"
| "wrap (ValueElem val) = New_key val"

fun copyElements_from :: "nat \<Rightarrow> heap \<Rightarrow> slice \<Rightarrow> element list \<Rightarrow> panic + heap" where
  "copyElements_from i h dest [] = Inr h"
| "copyElements_from i h dest (element # rest) =
     (case set_elem h dest i (Some (wrap element)) of
        Inl p \<Rightarrow> Inl p
      | Inr h' \<Rightarrow> copyElements_from (Suc i) h' dest rest)"

definition copyElements :: "heap \<Rightarrow> slice \<Rightarrow> element list \<Rightarrow> panic + heap" where
  "copyElements h dest elements = copyElements_from 0 h dest elements"

definition New :: "heap \<Rightarrow> element list \<Rightarrow> panic + (slice \<times> heap)" where
  "New h elements =
     (let (result, h1) = make h (length elements)
      in case copyElements h1 result elements of
           Inl p \<Rightarrow> Inl p
         | Inr h2 \<Rightarrow> Inr (result, h2))"




text \<open>
  \<open>strings.Split(s, sep)\<close> of the Go library for a separator of one byte, the only use
  in \<open>path.go\<close>: the substrings of \<open>s\<close> between the occurrences of the separator, one
  more than there are occurrences (so \<open>[""]\<close> for the empty string).
\<close>

fun strings_Split :: "string \<Rightarrow> char \<Rightarrow> string list" where
  "strings_Split [] sep = [[]]"
| "strings_Split (c # cs) sep =
     (if c = sep then [] # strings_Split cs sep
      else (case strings_Split cs sep of
              [] \<Rightarrow> [[c]]
            | t # ts \<Rightarrow> (c # t) # ts))"

text \<open>\<open>strings.Join(elems, sep)\<close> for a separator of one byte; it states what
  \<open>strings.Split\<close> returns.\<close>

fun strings_Join :: "string list \<Rightarrow> char \<Rightarrow> string" where
  "strings_Join [] sep = []"
| "strings_Join [t] sep = t"
| "strings_Join (t # ts) sep = t @ sep # strings_Join ts sep"

text \<open>The loop of \<open>FromString\<close>: \<open>result[i] = key.New(element)\<close>.\<close>

fun FromString_from :: "nat \<Rightarrow> heap \<Rightarrow> slice \<Rightarrow> string list \<Rightarrow> panic + heap" where
  "FromString_from i h result [] = Inr h"
| "FromString_from i h result (element # rest) =
     (case set_elem h result i (Some (New_key (NStr element))) of
        Inl p \<Rightarrow> Inl p
      | Inr h' \<Rightarrow> FromString_from (Suc i) h' result rest)"

text \<open>
  \<open>FromString\<close>. \<open>key.Path{}\<close> is a new empty slice. \<open>str[0]\<close> is read only when \<open>str\<close> is
  not empty, so it cannot panic.
\<close>

definition FromString :: "heap \<Rightarrow> string \<Rightarrow> panic + (slice \<times> heap)" where
  "FromString h str =
     (if str = [] \<or> str = ''/'' then Inr (make h 0)
      else let str' = (if hd str = CHR ''/'' then tl str else str);
               elements = strings_Split str' (CHR ''/'');
               (result, h1) = make h (length elements)
           in case FromString_from 0 h1 result elements of
                Inl p \<Rightarrow> Inl p
              | Inr h2 \<Rightarrow> Inr (result, h2))"

section \<open>The hybrid Map\<close>

text \<open>
  Modelled from the spec: type \<open>Map\<close> of package \<open>key\<close> and its methods \<open>Set\<close>, \<open>Get\<close>,
  \<open>Iter\<close> and \<open>Equal\<close> are exercised by the test file but defined in a file that is
  not among the sources. The model follows sections 3 and 4.2 to 4.6 of the
  specification and the struct literals of the tests
  (\<open>Map{normal: ..., custom: map[uint64]entry{...}, length: n}\<close>,
  \<open>entry{k: ..., v: ..., next: &entry{...}}\<close>).

  A collision chain \<open>entry{k, v, next}\<close> is the list of its nodes, head first. The two
  Go maps are association lists: the order of a list is the order in which the
  run-time system enumerates that map, which Go leaves open, so what holds for every
  list holds for every enumeration. \<open>length_Map\<close> is the \<open>length\<close> field.
\<close>

type_synonym 'v chain = "(hashable \<times> 'v) list"

datatype 'v Map =
  Map (normal: "(native \<times> 'v) list") (custom: "(64 word \<times> 'v chain) list") (length_Map: int)

text \<open>The zero value \<open>Map{}\<close>.\<close>

definition Map_empty :: "'v Map" where
  "Map_empty = Map [] [] 0"





text \<open>
  Modelled from the spec (4.5): \<open>Map.Iter\<close>. The visitor is a Go closure: it returns an
  error (\<open>None\<close> is nil) and may change the state \<open>'s\<close> it closes over. The native
  entries are visited first, then every chain from head to tail; the first error
  stops the iteration and is returned as it is.
\<close>

type_synonym ('v, 's, 'e) visitor = "key \<Rightarrow> 'v \<Rightarrow> 's \<Rightarrow> 'e option \<times> 's"

fun Iter_normal :: "(native \<times> 'v) list \<Rightarrow> ('v, 's, 'e) visitor \<Rightarrow> 's \<Rightarrow> 'e option \<times> 's" where
  "Iter_normal [] visit s = (None, s)"
| "Iter_normal ((n, v) # rest) visit s =
     (case visit (Native n) v s of
        (Some err, s') \<Rightarrow> (Some err, s')
      | (None, s') \<Rightarrow> Iter_normal rest visit s')"

fun Iter_chain :: "'v chain \<Rightarrow> ('v, 's, 'e) visitor \<Rightarrow> 's \<Rightarrow> 'e option \<times> 's" where
  "Iter_chain [] visit s = (None, s)"
| "Iter_chain ((k, v) # rest) visit s =
     (case visit (Custom k) v s of
        (Some err, s') \<Rightarrow> (Some err, s')
      | (None, s') \<Rightarrow> Iter_chain rest visit s')"

fun Iter_custom :: "(64 word \<times> 'v chain) list \<Rightarrow> ('v, 's, 'e) visitor \<Rightarrow> 's \<Rightarrow> 'e option \<times> 's" where
  "Iter_custom [] visit s = (None, s)"
| "Iter_custom ((h, chain) # rest) visit s =
     (case Iter_chain chain visit s of
        (Some err, s') \<Rightarrow> (Some err, s')
      | (None, s') \<Rightarrow> Iter_custom rest visit s')"

definition Map_Iter :: "'v Map \<Rightarrow> ('v, 's, 'e) visitor \<Rightarrow> 's \<Rightarrow> 'e option \<times> 's" where
  "Map_Iter m visit s =
     (case Iter_normal (normal m) visit s of
        (Some err, s') \<Rightarrow> (Some err, s')
      | (None, s') \<Rightarrow> Iter_custom (custom m) visit s')"

text \<open>The logical entries of a Map: the native entries, then the nodes of every chain.\<close>

definition entries :: "'v Map \<Rightarrow> (key \<times> 'v) list" where
  "entries m =
     map (\<lambda>(n, v). (Native n, v)) (normal m) @
     concat (map (\<lambda>(h, chain). map (\<lambda>(k, v). (Custom k, v)) chain) (custom m))"

text \<open>A visitor that counts its invocations, as \<open>iterfunc\<close> of \<open>TestMapIter\<close> does with
  \<open>count++\<close>, around any visitor.\<close>

definition counting :: "('v, 's, 'e) visitor \<Rightarrow> ('v, nat \<times> 's, 'e) visitor" where
  "counting visit k v cs = (case visit k v (snd cs) of (err, s') \<Rightarrow> (err, (Suc (fst cs), s')))"

text \<open>The visits of a list of entries in order, up to the first error.\<close>

fun visit_all :: "(key \<times> 'v) list \<Rightarrow> ('v, 's, 'e) visitor \<Rightarrow> 's \<Rightarrow> 'e option \<times> 's" where
  "visit_all [] visit s = (None, s)"
| "visit_all ((k, v) # rest) visit s =
     (case visit k v s of
        (Some err, s') \<Rightarrow> (Some err, s')
      | (None, s') \<Rightarrow> visit_all rest visit s')"

section \<open>The loops never leave their range\<close>

lemma hasPrefix_from_index:
  "i + length bs \<le> length a \<Longrightarrow>
   hasPrefix_from i a bs = Inr (\<forall>j<length bs. Key_Equal (bs ! j) (a ! (i + j)))"
proof (induction bs arbitrary: i)
  case Nil
  then show ?case by simp
next
  case (Cons x bs)
  have i: "i < length a" using Cons.prems by simp
  have step: "hasPrefix_from (Suc i) a bs =
     Inr (\<forall>j<length bs. Key_Equal (bs ! j) (a ! (Suc i + j)))"
    using Cons.IH [of "Suc i"] Cons.prems by simp
  have split: "(\<forall>j<Suc (length bs). Key_Equal ((x # bs) ! j) (a ! (i + j))) =
     (Key_Equal x (a ! i) \<and> (\<forall>j<length bs. Key_Equal (bs ! j) (a ! (Suc i + j))))"
    by (simp add: All_less_Suc2)
  show ?case using i step split by (simp add: index_def)
qed

lemma hasPrefix_index:
  "length b \<le> length a \<Longrightarrow>
   hasPrefix a b = Inr (\<forall>j<length b. Key_Equal (b ! j) (a ! j))"
  using hasPrefix_from_index [of 0 b a] by (simp add: hasPrefix_def)

lemma matchPrefix_from_index:
  "i + length bs \<le> length a \<Longrightarrow>
   matchPrefix_from i a bs =
     Inr (\<forall>j<length bs. Key_Equal (a ! (i + j)) Wildcard \<or> Key_Equal (bs ! j) (a ! (i + j)))"
proof (induction bs arbitrary: i)
  case Nil
  then show ?case by simp
next
  case (Cons x bs)
  have i: "i < length a" using Cons.prems by simp
  have step: "matchPrefix_from (Suc i) a bs =
     Inr (\<forall>j<length bs. Key_Equal (a ! (Suc i + j)) Wildcard \<or> Key_Equal (bs ! j) (a ! (Suc i + j)))"
    using Cons.IH [of "Suc i"] Cons.prems by simp
  have split: "(\<forall>j<Suc (length bs). Key_Equal (a ! (i + j)) Wildcard \<or> Key_Equal ((x # bs) ! j) (a ! (i + j))) =
     ((Key_Equal (a ! i) Wildcard \<or> Key_Equal x (a ! i)) \<and>
      (\<forall>j<length bs. Key_Equal (a ! (Suc i + j)) Wildcard \<or> Key_Equal (bs ! j) (a ! (Suc i + j))))"
    by (simp add: All_less_Suc2)
  show ?case using i step split by (auto simp add: index_def)
qed

lemma matchPrefix_index:
  "length b \<le> length a \<Longrightarrow>
   matchPrefix a b =
     Inr (\<forall>j<length b. Key_Equal (a ! j) Wildcard \<or> Key_Equal (b ! j) (a ! j))"
  using matchPrefix_from_index [of 0 b a] by (simp add: matchPrefix_def)

lemma strings_HasPrefix_prefix: "strings_HasPrefix s pre = prefix pre s"
  by (auto simp add: strings_HasPrefix_def prefix_def take_is_prefix
        intro: exI [of _ "drop (length pre) s"])
     (metis append_take_drop_id)

lemma Parent_take: "Parent p = take (length p - 1) p"
  by (simp add: Parent_def)

lemma Base_last: "p \<noteq> [] \<Longrightarrow> Base p = Some (last p)"
  by (simp add: Base_def last_conv_nth)

lemma hasPrefix_Parent:
  assumes "length b \<le> length a"
  shows "hasPrefix (Parent a) (Parent b) = Inr (\<forall>j. j + 1 < length b \<longrightarrow> Key_Equal (b ! j) (a ! j))"
proof -
  have len: "length (Parent b) \<le> length (Parent a)"
    using assms by (simp add: Parent_take)
  have "(\<forall>j<length (Parent b). Key_Equal (Parent b ! j) (Parent a ! j)) =
        (\<forall>j. j + 1 < length b \<longrightarrow> Key_Equal (b ! j) (a ! j))"
    using assms by (simp add: Parent_take less_diff_conv)
  then show ?thesis using hasPrefix_index [OF len] by simp
qed

lemma matchPrefix_Parent:
  assumes "length b \<le> length a"
  shows "matchPrefix (Parent a) (Parent b) =
    Inr (\<forall>j. j + 1 < length b \<longrightarrow> Key_Equal (a ! j) Wildcard \<or> Key_Equal (b ! j) (a ! j))"
proof -
  have len: "length (Parent b) \<le> length (Parent a)"
    using assms by (simp add: Parent_take)
  have "(\<forall>j<length (Parent b). Key_Equal (Parent a ! j) Wildcard \<or> Key_Equal (Parent b ! j) (Parent a ! j)) =
        (\<forall>j. j + 1 < length b \<longrightarrow> Key_Equal (a ! j) Wildcard \<or> Key_Equal (b ! j) (a ! j))"
    using assms by (simp add: Parent_take less_diff_conv)
  then show ?thesis using matchPrefix_index [OF len] by simp
qed

lemma hasPrefixString_index:
  assumes "length b \<le> length a" and "b \<noteq> []"
  shows "hasPrefixString a b =
    Inr ((\<forall>j. j + 1 < length b \<longrightarrow> Key_Equal (b ! j) (a ! j)) \<and>
         compareElementString (a ! (length b - 1)) (last b))"
proof -
  have i: "length b - 1 < length a" using assms by (cases b) auto
  show ?thesis
    using assms i by (simp add: hasPrefixString_def hasPrefix_Parent index_def Base_last)
qed

lemma matchPrefixString_index:
  assumes "length b \<le> length a" and "b \<noteq> []"
  shows "matchPrefixString a b =
    Inr ((\<forall>j. j + 1 < length b \<longrightarrow> Key_Equal (a ! j) Wildcard \<or> Key_Equal (b ! j) (a ! j)) \<and>
         (Key_Equal (a ! (length b - 1)) Wildcard \<or>
          compareElementString (a ! (length b - 1)) (last b)))"
proof -
  have i: "length b - 1 < length a" using assms by (cases b) auto
  show ?thesis
    using assms i by (simp add: matchPrefixString_def matchPrefix_Parent index_def Base_last)
qed

lemma compareElementString_cases:
  "compareElementString a b =
     (case (Key_string a, Key_string b) of
        (Some aStr, Some bStr) \<Rightarrow> prefix bStr aStr
      | _ \<Rightarrow> Key_Equal b a)"
  by (simp add: compareElementString_def strings_HasPrefix_prefix split: option.splits)

text \<open>
  C1. \<open>HasPrefixString(a,b)\<close> never panics, and it is true exactly when
  \<open>len(b) <= len(a)\<close>, every element of \<open>b\<close> before the last is \<open>Equal\<close> to the
  element of \<open>a\<close> at its index, and the last element of \<open>b\<close> compares with the element
  of \<open>a\<close> at index \<open>len(b)-1\<close> as follows: when both wrap strings, the string of \<open>a\<close>'s
  element starts with the string of \<open>b\<close>'s; otherwise the two are \<open>Equal\<close>. An empty
  \<open>b\<close> always matches. \<open>HasPrefixString(["net","iface0"], ["net","ifa"])\<close> is true
  and \<open>HasPrefixString(["net","iface0"], ["net","eth"])\<close> is false.
\<close>

theorem HasPrefixString_last_element_string_prefix:
  "HasPrefixString a b =
     Inr (length b \<le> length a \<and>
          (\<forall>i. i + 1 < length b \<longrightarrow> Key_Equal (b ! i) (a ! i)) \<and>
          (b \<noteq> [] \<longrightarrow>
             (case (Key_string (a ! (length b - 1)), Key_string (last b)) of
                (Some aStr, Some bStr) \<Rightarrow> prefix bStr aStr
              | _ \<Rightarrow> Key_Equal (last b) (a ! (length b - 1))))) \<and>
   HasPrefixString a [] = Inr True \<and>
   HasPrefixString [New_key (NStr ''net''), New_key (NStr ''iface0'')]
                   [New_key (NStr ''net''), New_key (NStr ''ifa'')] = Inr True \<and>
   HasPrefixString [New_key (NStr ''net''), New_key (NStr ''iface0'')]
                   [New_key (NStr ''net''), New_key (NStr ''eth'')] = Inr False"
proof -
  have general: "HasPrefixString a b =
     Inr (length b \<le> length a \<and>
          (\<forall>i. i + 1 < length b \<longrightarrow> Key_Equal (b ! i) (a ! i)) \<and>
          (b \<noteq> [] \<longrightarrow>
             (case (Key_string (a ! (length b - 1)), Key_string (last b)) of
                (Some aStr, Some bStr) \<Rightarrow> prefix bStr aStr
              | _ \<Rightarrow> Key_Equal (last b) (a ! (length b - 1)))))" for a b
  proof (cases "length b \<le> length a")
    case False
    then show ?thesis by (simp add: HasPrefixString_def)
  next
    case le: True
    show ?thesis
    proof (cases "b = []")
      case True
      then show ?thesis by (simp add: HasPrefixString_def hasPrefixString_def)
    next
      case False
      then show ?thesis
        using le by (simp add: HasPrefixString_def hasPrefixString_index compareElementString_cases
              split: option.splits)
    qed
  qed
  have empty: "HasPrefixString a [] = Inr True"
    by (simp add: HasPrefixString_def hasPrefixString_def)
  have ex1: "HasPrefixString [New_key (NStr ''net''), New_key (NStr ''iface0'')]
                   [New_key (NStr ''net''), New_key (NStr ''ifa'')] = Inr True"
    by (simp add: general New_key_def)
  have ex2: "HasPrefixString [New_key (NStr ''net''), New_key (NStr ''iface0'')]
                   [New_key (NStr ''net''), New_key (NStr ''eth'')] = Inr False"
    by (simp add: general New_key_def)
  show ?thesis using general [of a b] empty ex1 ex2 by blast
qed

theorem HasPrefixString_witness:
  "HasPrefixString [New_key (NStr ''a''), New_key (NInt 7), New_key (NStr ''xyz'')]
                   [New_key (NStr ''a''), New_key (NInt 7)] = Inr True \<and>
   HasPrefixString [New_key (NStr ''a''), New_key (NStr ''7'')]
                   [New_key (NStr ''a''), New_key (NInt 7)] = Inr False"
  using HasPrefixString_last_element_string_prefix
      [of "[New_key (NStr ''a''), New_key (NInt 7), New_key (NStr ''xyz'')]"
          "[New_key (NStr ''a''), New_key (NInt 7)]"]
    HasPrefixString_last_element_string_prefix
      [of "[New_key (NStr ''a''), New_key (NStr ''7'')]"
          "[New_key (NStr ''a''), New_key (NInt 7)]"]
  by (simp add: New_key_def)

lemma Match_index:
  "Match a b = Inr (length a = length b \<and>
     (\<forall>i<length b. Key_Equal (a ! i) Wildcard \<or> Key_Equal (b ! i) (a ! i)))"
  by (simp add: Match_def matchPrefix_index)

lemma MatchPrefix_index:
  "MatchPrefix a b = Inr (length b \<le> length a \<and>
     (\<forall>i<length b. Key_Equal (a ! i) Wildcard \<or> Key_Equal (b ! i) (a ! i)))"
  by (simp add: MatchPrefix_def matchPrefix_index)

lemma MatchPrefixString_index:
  "MatchPrefixString a b =
     Inr (length b \<le> length a \<and>
          (\<forall>i. i + 1 < length b \<longrightarrow> Key_Equal (a ! i) Wildcard \<or> Key_Equal (b ! i) (a ! i)) \<and>
          (b \<noteq> [] \<longrightarrow> Key_Equal (a ! (length b - 1)) Wildcard \<or>
                      compareElementString (a ! (length b - 1)) (last b)))"
proof (cases "length b \<le> length a")
  case False
  then show ?thesis by (simp add: MatchPrefixString_def)
next
  case le: True
  show ?thesis
  proof (cases "b = []")
    case True
    then show ?thesis by (simp add: MatchPrefixString_def matchPrefixString_def)
  next
    case False
    then show ?thesis
      using le by (simp add: MatchPrefixString_def matchPrefixString_index)
  qed
qed

lemma Key_Equal_Wildcard_iff: "Key_Equal k Wildcard = (k = Wildcard)"
  by (cases k) (auto simp add: Wildcard_def New_key_def)

lemma compareElementString_Wildcard: "compareElementString a Wildcard = Key_Equal Wildcard a"
  by (simp add: compareElementString_def Wildcard_def New_key_def split: option.splits)

text \<open>
  C2. \<open>Match(a,b)\<close> is true exactly when the lengths are equal and at every index
  \<open>a[i]\<close> equals the Wildcard or \<open>b[i].Equal(a[i])\<close>; \<open>MatchPrefix(a,b)\<close> asks only
  \<open>len(b) <= len(a)\<close> and checks the indices of \<open>b\<close>. Neither panics.
  \<open>MatchPrefix([Wildcard,"b"], ["a","b"])\<close> is true and
  \<open>Match([Wildcard,"b"], ["a","c"])\<close> is false.
\<close>

theorem Match_MatchPrefix_wildcard_in_pattern:
  "Match a b = Inr (length a = length b \<and>
     (\<forall>i<length b. Key_Equal (a ! i) Wildcard \<or> Key_Equal (b ! i) (a ! i))) \<and>
   MatchPrefix a b = Inr (length b \<le> length a \<and>
     (\<forall>i<length b. Key_Equal (a ! i) Wildcard \<or> Key_Equal (b ! i) (a ! i))) \<and>
   MatchPrefix [Wildcard, New_key (NStr ''b'')]
               [New_key (NStr ''a''), New_key (NStr ''b'')] = Inr True \<and>
   Match [Wildcard, New_key (NStr ''b'')]
         [New_key (NStr ''a''), New_key (NStr ''c'')] = Inr False"
proof -
  have ex1: "MatchPrefix [Wildcard, New_key (NStr ''b'')]
               [New_key (NStr ''a''), New_key (NStr ''b'')] = Inr True"
    by (simp add: MatchPrefix_index All_less_Suc2 Wildcard_def New_key_def)
  have ex2: "Match [Wildcard, New_key (NStr ''b'')]
         [New_key (NStr ''a''), New_key (NStr ''c'')] = Inr False"
    by (simp add: Match_index All_less_Suc2 Wildcard_def New_key_def)
  show ?thesis using Match_index [of a b] MatchPrefix_index [of a b] ex1 ex2 by blast
qed

theorem Match_MatchPrefix_witness:
  "Match [New_key (NInt 1), Wildcard, Wildcard] [New_key (NInt 1), New_key (NStr ''x''), Wildcard] = Inr True \<and>
   Match [New_key (NInt 1), Wildcard] [New_key (NInt 1), New_key (NStr ''x''), Wildcard] = Inr False \<and>
   MatchPrefix [New_key (NInt 1), Wildcard, New_key (NBool True)] [New_key (NInt 1), New_key (NStr ''x'')] = Inr True \<and>
   MatchPrefix [New_key (NInt 1), New_key (NStr ''x'')] [New_key (NInt 1), Wildcard] = Inr False"
  using Match_MatchPrefix_wildcard_in_pattern
      [of "[New_key (NInt 1), Wildcard, Wildcard]" "[New_key (NInt 1), New_key (NStr ''x''), Wildcard]"]
    Match_MatchPrefix_wildcard_in_pattern
      [of "[New_key (NInt 1), Wildcard]" "[New_key (NInt 1), New_key (NStr ''x''), Wildcard]"]
    Match_MatchPrefix_wildcard_in_pattern
      [of "[New_key (NInt 1), Wildcard, New_key (NBool True)]" "[New_key (NInt 1), New_key (NStr ''x'')]"]
    Match_MatchPrefix_wildcard_in_pattern
      [of "[New_key (NInt 1), New_key (NStr ''x'')]" "[New_key (NInt 1), Wildcard]"]
  by (simp add: All_less_Suc2 Wildcard_def New_key_def)

text \<open>
  C8, as the claim states it: in \<open>MatchPrefixString\<close> too the test at each checked
  index would be \<open>a[i].Equal(Wildcard)\<close> or \<open>b[i].Equal(a[i])\<close>. The last checked index
  of \<open>MatchPrefixString\<close> is tested by \<open>compareElementString\<close> instead:
  \<open>MatchPrefixString(["iface0"], ["ifa"])\<close> is true although \<open>"iface0"\<close> is not the
  Wildcard and \<open>"ifa"\<close> is not equal to \<open>"iface0"\<close>.
\<close>

theorem MatchPrefixString_last_index_counterexample:
  "MatchPrefixString [New_key (NStr ''iface0'')] [New_key (NStr ''ifa'')] = Inr True \<and>
   \<not> Key_Equal ([New_key (NStr ''iface0'')] ! 0) Wildcard \<and>
   \<not> Key_Equal ([New_key (NStr ''ifa'')] ! 0) ([New_key (NStr ''iface0'')] ! 0)"
  by (simp add: MatchPrefixString_index compareElementString_cases Wildcard_def New_key_def)

text \<open>
  C8, amended. The Wildcard is recognised in the first argument only. In \<open>Match\<close> and
  \<open>MatchPrefix\<close> the test at each checked index is \<open>a[i].Equal(Wildcard)\<close> or
  \<open>b[i].Equal(a[i])\<close>; in \<open>MatchPrefixString\<close> it is the same before the last index of
  \<open>b\<close>, and at the last index it is \<open>a[i].Equal(Wildcard)\<close> or
  \<open>compareElementString(a[i], b[i])\<close> (string prefix when both wrap strings, \<open>Equal\<close>
  otherwise). So in all three an element of \<open>b\<close> that equals the Wildcard matches an
  element of \<open>a\<close> that is not the Wildcard only when \<open>b[i].Equal(a[i])\<close> holds, and the
  relations are not symmetric: \<open>Match([Wildcard], ["x"])\<close> is true and
  \<open>Match(["x"], [Wildcard])\<close> is false, and likewise for the other two.
\<close>

theorem wildcard_only_in_first_argument:
  "Match a b = Inr (length a = length b \<and>
     (\<forall>i<length b. Key_Equal (a ! i) Wildcard \<or> Key_Equal (b ! i) (a ! i))) \<and>
   MatchPrefix a b = Inr (length b \<le> length a \<and>
     (\<forall>i<length b. Key_Equal (a ! i) Wildcard \<or> Key_Equal (b ! i) (a ! i))) \<and>
   MatchPrefixString a b = Inr (length b \<le> length a \<and>
     (\<forall>i. i + 1 < length b \<longrightarrow> Key_Equal (a ! i) Wildcard \<or> Key_Equal (b ! i) (a ! i)) \<and>
     (b \<noteq> [] \<longrightarrow> Key_Equal (a ! (length b - 1)) Wildcard \<or>
                 compareElementString (a ! (length b - 1)) (last b))) \<and>
   ((Match a b = Inr True \<or> MatchPrefix a b = Inr True \<or> MatchPrefixString a b = Inr True) \<longrightarrow>
      (\<forall>i<length b. Key_Equal (b ! i) Wildcard \<and> \<not> Key_Equal (a ! i) Wildcard \<longrightarrow>
         Key_Equal (b ! i) (a ! i))) \<and>
   Match [Wildcard] [New_key (NStr ''x'')] = Inr True \<and>
   Match [New_key (NStr ''x'')] [Wildcard] = Inr False \<and>
   MatchPrefix [Wildcard] [New_key (NStr ''x'')] = Inr True \<and>
   MatchPrefix [New_key (NStr ''x'')] [Wildcard] = Inr False \<and>
   MatchPrefixString [Wildcard] [New_key (NStr ''x'')] = Inr True \<and>
   MatchPrefixString [New_key (NStr ''x'')] [Wildcard] = Inr False"
proof -
  have only_if: "Key_Equal (b ! i) (a ! i)"
    if run: "Match a b = Inr True \<or> MatchPrefix a b = Inr True \<or> MatchPrefixString a b = Inr True"
      and i: "i < length b" and bw: "Key_Equal (b ! i) Wildcard"
      and aw: "\<not> Key_Equal (a ! i) Wildcard" for i
  proof -
    consider (plain) "Match a b = Inr True \<or> MatchPrefix a b = Inr True"
      | (str) "MatchPrefixString a b = Inr True"
      using run by blast
    then show ?thesis
    proof cases
      case plain
      then have "\<forall>i<length b. Key_Equal (a ! i) Wildcard \<or> Key_Equal (b ! i) (a ! i)"
        by (auto simp add: Match_index MatchPrefix_index)
      then show ?thesis using i aw by blast
    next
      case str
      then have before: "\<forall>i. i + 1 < length b \<longrightarrow> Key_Equal (a ! i) Wildcard \<or> Key_Equal (b ! i) (a ! i)"
        and at_last: "b \<noteq> [] \<longrightarrow> Key_Equal (a ! (length b - 1)) Wildcard \<or>
                 compareElementString (a ! (length b - 1)) (last b)"
        by (simp_all add: MatchPrefixString_index)
      show ?thesis
      proof (cases "i + 1 < length b")
        case True
        then show ?thesis using before aw by blast
      next
        case False
        then have il: "i = length b - 1" and ne: "b \<noteq> []" using i by auto
        have lb: "last b = b ! i" using il ne by (simp add: last_conv_nth)
        have "b ! i = Wildcard" using bw by (simp add: Key_Equal_Wildcard_iff)
        then show ?thesis
          using at_last ne aw il lb by (simp add: compareElementString_Wildcard)
      qed
    qed
  qed
  have ex: "Match [Wildcard] [New_key (NStr ''x'')] = Inr True"
    "Match [New_key (NStr ''x'')] [Wildcard] = Inr False"
    "MatchPrefix [Wildcard] [New_key (NStr ''x'')] = Inr True"
    "MatchPrefix [New_key (NStr ''x'')] [Wildcard] = Inr False"
    "MatchPrefixString [Wildcard] [New_key (NStr ''x'')] = Inr True"
    "MatchPrefixString [New_key (NStr ''x'')] [Wildcard] = Inr False"
    by (simp_all add: Match_index MatchPrefix_index MatchPrefixString_index
          compareElementString_cases Wildcard_def New_key_def)
  show ?thesis
    using Match_index [of a b] MatchPrefix_index [of a b] MatchPrefixString_index [of a b]
      only_if ex by blast
qed

theorem wildcard_only_in_first_argument_witness:
  "MatchPrefixString [New_key (NStr ''net''), New_key (NStr ''iface0'')]
                     [Wildcard, New_key (NStr ''ifa'')] = Inr False \<and>
   MatchPrefixString [Wildcard, New_key (NStr ''iface0'')]
                     [New_key (NStr ''net''), New_key (NStr ''ifa'')] = Inr True \<and>
   Match [Wildcard, Wildcard] [Wildcard, Wildcard] = Inr True \<and>
   Key_Equal ([Wildcard, Wildcard] ! 1) ([Wildcard, Wildcard] ! 1)"
  using wildcard_only_in_first_argument
      [of "[New_key (NStr ''net''), New_key (NStr ''iface0'')]" "[Wildcard, New_key (NStr ''ifa'')]"]
    wildcard_only_in_first_argument
      [of "[Wildcard, New_key (NStr ''iface0'')]" "[New_key (NStr ''net''), New_key (NStr ''ifa'')]"]
    wildcard_only_in_first_argument [of "[Wildcard, Wildcard]" "[Wildcard, Wildcard]"]
  by (simp add: All_less_Suc2 compareElementString_cases Wildcard_def New_key_def)

section \<open>Append and Join allocate; nothing else is written\<close>



lemma slice_ok_append_heap: "slice_ok h s \<Longrightarrow> slice_ok (h @ hs) s"
  by (cases s) (auto simp add: nth_append)

lemma overwrite_update:
  "pos + Suc (length xs) \<le> length cells \<Longrightarrow>
   overwrite (cells[pos := x]) (Suc pos) xs = overwrite cells pos (x # xs)"
  by (simp add: overwrite_def take_Suc_conv_app_nth)

lemma overwrite_Nil: "overwrite cells pos [] = cells"
  by (simp add: overwrite_def)



lemma copyElements_from_writes:
  "a < length h \<Longrightarrow> off + n \<le> length (h ! a) \<Longrightarrow> i + length es \<le> n \<Longrightarrow>
   copyElements_from i h (Slice a off n) es =
     Inr (h[a := overwrite (h ! a) (off + i) (map (\<lambda>e. Some (wrap e)) es)])"
proof (induction es arbitrary: i h)
  case Nil
  then show ?case by (simp add: overwrite_Nil)
next
  case (Cons e es)
  let ?h' = "h[a := (h ! a)[off + i := Some (wrap e)]]"
  have "copyElements_from (Suc i) ?h' (Slice a off n) es =
     Inr (?h'[a := overwrite (?h' ! a) (off + Suc i) (map (\<lambda>e. Some (wrap e)) es)])"
    using Cons.prems by (intro Cons.IH) auto
  moreover have "overwrite ((h ! a)[off + i := Some (wrap e)]) (Suc (off + i)) (map (\<lambda>e. Some (wrap e)) es) =
     overwrite (h ! a) (off + i) (Some (wrap e) # map (\<lambda>e. Some (wrap e)) es)"
    using Cons.prems by (intro overwrite_update) simp
  ultimately show ?case using Cons.prems by simp
qed


lemma copyElements_writes:
  "a < length h \<Longrightarrow> off + n \<le> length (h ! a) \<Longrightarrow> length es \<le> n \<Longrightarrow>
   copyElements h (Slice a off n) es =
     Inr (h[a := overwrite (h ! a) off (map (\<lambda>e. Some (wrap e)) es)])"
  using copyElements_from_writes [of a h off n 0 es] by (simp add: copyElements_def)











section \<open>FromString\<close>

lemma strings_Split_not_Nil: "strings_Split s sep \<noteq> []"
  by (induction s) (auto split: list.splits)

lemma length_strings_Split: "length (strings_Split s sep) = Suc (count_list s sep)"
  by (induction s) (auto split: list.splits simp add: strings_Split_not_Nil)

lemma strings_Split_no_sep: "t \<in> set (strings_Split s sep) \<Longrightarrow> sep \<notin> set t"
  by (induction s arbitrary: t) (auto split: list.splits if_splits)

lemma strings_Join_Cons:
  "ts \<noteq> [] \<Longrightarrow> strings_Join (t # ts) sep = t @ sep # strings_Join ts sep"
  by (cases ts) simp_all

lemma strings_Join_Split: "strings_Join (strings_Split s sep) sep = s"
proof (induction s)
  case Nil
  then show ?case by simp
next
  case (Cons c cs)
  obtain t ts where sp: "strings_Split cs sep = t # ts"
    using strings_Split_not_Nil [of cs sep] by (cases "strings_Split cs sep") auto
  show ?case
  proof (cases "c = sep")
    case True
    then show ?thesis
      using Cons.IH by (simp add: strings_Join_Cons strings_Split_not_Nil)
  next
    case False
    then show ?thesis
      using Cons.IH sp by (cases ts) simp_all
  qed
qed

lemma FromString_from_writes:
  "a < length h \<Longrightarrow> off + n \<le> length (h ! a) \<Longrightarrow> i + length es \<le> n \<Longrightarrow>
   FromString_from i h (Slice a off n) es =
     Inr (h[a := overwrite (h ! a) (off + i) (map (\<lambda>e. Some (New_key (NStr e))) es)])"
proof (induction es arbitrary: i h)
  case Nil
  then show ?case by (simp add: overwrite_Nil)
next
  case (Cons e es)
  let ?h' = "h[a := (h ! a)[off + i := Some (New_key (NStr e))]]"
  have "FromString_from (Suc i) ?h' (Slice a off n) es =
     Inr (?h'[a := overwrite (?h' ! a) (off + Suc i) (map (\<lambda>e. Some (New_key (NStr e))) es)])"
    using Cons.prems by (intro Cons.IH) auto
  moreover have "overwrite ((h ! a)[off + i := Some (New_key (NStr e))]) (Suc (off + i))
       (map (\<lambda>e. Some (New_key (NStr e))) es) =
     overwrite (h ! a) (off + i) (Some (New_key (NStr e)) # map (\<lambda>e. Some (New_key (NStr e))) es)"
    using Cons.prems by (intro overwrite_update) simp
  ultimately show ?case using Cons.prems by simp
qed

lemma FromString_empty: "FromString h [] = Inr (Slice (length h) 0 0, h @ [[]])"
  by (simp add: FromString_def make_def)

lemma FromString_slash: "FromString h ''/'' = Inr (Slice (length h) 0 0, h @ [[]])"
  by (simp add: FromString_def make_def)

lemma FromString_tokens:
  assumes "str \<noteq> []" and "str \<noteq> ''/''"
  shows "FromString h str =
     Inr (Slice (length h) 0
            (length (strings_Split (if hd str = CHR ''/'' then tl str else str) (CHR ''/''))),
          h @ [map (\<lambda>e. Some (New_key (NStr e)))
                 (strings_Split (if hd str = CHR ''/'' then tl str else str) (CHR ''/''))])"
proof -
  let ?els = "strings_Split (if hd str = CHR ''/'' then tl str else str) (CHR ''/'')"
  let ?n = "length ?els"
  have "FromString_from 0 (h @ [replicate ?n None]) (Slice (length h) 0 ?n) ?els =
     Inr ((h @ [replicate ?n None])[length h :=
        overwrite ((h @ [replicate ?n None]) ! length h) (0 + 0)
          (map (\<lambda>e. Some (New_key (NStr e))) ?els)])"
    by (intro FromString_from_writes) simp_all
  moreover have "overwrite (replicate ?n None) 0 (map (\<lambda>e. Some (New_key (NStr e))) ?els) =
     map (\<lambda>e. Some (New_key (NStr e))) ?els"
    by (simp add: overwrite_def)
  ultimately show ?thesis
    using assms by (simp add: FromString_def make_def Let_def)
qed

lemma New_result:
  "New h es = Inr (Slice (length h) 0 (length es), h @ [map (\<lambda>e. Some (wrap e)) es])"
proof -
  have "copyElements (h @ [replicate (length es) None]) (Slice (length h) 0 (length es)) es =
     Inr ((h @ [replicate (length es) None])[length h :=
        overwrite ((h @ [replicate (length es) None]) ! length h) 0 (map (\<lambda>e. Some (wrap e)) es)])"
    by (intro copyElements_writes) simp_all
  moreover have "overwrite (replicate (length es) None) 0 (map (\<lambda>e. Some (wrap e)) es) =
     map (\<lambda>e. Some (wrap e)) es"
    by (simp add: overwrite_def)
  ultimately show ?thesis by (simp add: New_def make_def)
qed

lemma strings_Split_append_sep:
  "strings_Split (u @ sep # v) sep = strings_Split u sep @ strings_Split v sep"
proof (induction u)
  case Nil
  then show ?case by simp
next
  case (Cons c u)
  obtain t ts where sp: "strings_Split u sep = t # ts"
    using strings_Split_not_Nil [of u sep] by (cases "strings_Split u sep") auto
  show ?case using Cons.IH sp by simp
qed

lemma Equal_refl_Native: "Equal (map Native xs) (map Native xs) = Inr True"
  using hasPrefix_index [of "map Native xs" "map Native xs"] by (simp add: Equal_def)

text \<open>
  C6. \<open>FromString("")\<close> and \<open>FromString("/")\<close> return an empty path. For every other
  string one leading \<open>'/'\<close>, if there is one, is removed and the rest is split on \<open>'/'\<close>:
  the tokens contain no \<open>'/'\<close> and, joined by \<open>'/'\<close>, give the stripped string back; the
  path holds the wrapped tokens in order. \<open>FromString("a/b")\<close> has two elements and is
  \<open>Equal\<close> to \<open>New("a","b")\<close>. Every string is accepted: \<open>FromString\<close> never panics, and
  it writes to no array that existed.
\<close>

theorem FromString_splits_on_slash:
  "(\<exists>r h'. FromString h [] = Inr (r, h') \<and> elems h' r = []) \<and>
   (\<exists>r h'. FromString h ''/'' = Inr (r, h') \<and> elems h' r = []) \<and>
   (str \<noteq> [] \<and> str \<noteq> ''/'' \<longrightarrow>
      (\<exists>r h' tokens. FromString h str = Inr (r, h') \<and>
         tokens \<noteq> [] \<and>
         strings_Join tokens (CHR ''/'') = (if hd str = CHR ''/'' then tl str else str) \<and>
         (\<forall>t\<in>set tokens. CHR ''/'' \<notin> set t) \<and>
         elems h' r = map (\<lambda>t. Some (New_key (NStr t))) tokens)) \<and>
   (\<exists>r h'. FromString h str = Inr (r, h') \<and> take (length h) h' = h) \<and>
   (\<exists>r1 h1 r2 h2 p q.
       FromString h ''a/b'' = Inr (r1, h1) \<and>
       New h1 [ValueElem (NStr ''a''), ValueElem (NStr ''b'')] = Inr (r2, h2) \<and>
       len r1 = 2 \<and> elems h2 r1 = map Some p \<and> elems h2 r2 = map Some q \<and>
       Equal p q = Inr True)"
proof -
  let ?stripped = "if hd str = CHR ''/'' then tl str else str"
  let ?tokens = "strings_Split ?stripped (CHR ''/'')"
  have e1: "\<exists>r h'. FromString h [] = Inr (r, h') \<and> elems h' r = []"
    by (simp add: FromString_empty)
  have e2: "\<exists>r h'. FromString h ''/'' = Inr (r, h') \<and> elems h' r = []"
    by (simp add: FromString_slash)
  have gen: "\<exists>r h' tokens. FromString h str = Inr (r, h') \<and>
         tokens \<noteq> [] \<and>
         strings_Join tokens (CHR ''/'') = ?stripped \<and>
         (\<forall>t\<in>set tokens. CHR ''/'' \<notin> set t) \<and>
         elems h' r = map (\<lambda>t. Some (New_key (NStr t))) tokens"
    if ne: "str \<noteq> [] \<and> str \<noteq> ''/''"
  proof (intro exI conjI)
    show "FromString h str = Inr (Slice (length h) 0 (length ?tokens),
        h @ [map (\<lambda>e. Some (New_key (NStr e))) ?tokens])"
      using ne by (intro FromString_tokens) simp_all
    show "?tokens \<noteq> []" by (rule strings_Split_not_Nil)
    show "strings_Join ?tokens (CHR ''/'') = ?stripped" by (rule strings_Join_Split)
    show "\<forall>t\<in>set ?tokens. CHR ''/'' \<notin> set t"
      using strings_Split_no_sep by blast
    show "elems (h @ [map (\<lambda>e. Some (New_key (NStr e))) ?tokens])
        (Slice (length h) 0 (length ?tokens)) = map (\<lambda>t. Some (New_key (NStr t))) ?tokens"
      by simp
  qed
  have total: "\<exists>r h'. FromString h str = Inr (r, h') \<and> take (length h) h' = h"
  proof (cases "str = [] \<or> str = ''/''")
    case True
    then show ?thesis by (auto simp add: FromString_empty FromString_slash)
  next
    case False
    then show ?thesis by (simp add: FromString_tokens)
  qed
  have ab: "\<exists>r1 h1 r2 h2 p q.
       FromString h ''a/b'' = Inr (r1, h1) \<and>
       New h1 [ValueElem (NStr ''a''), ValueElem (NStr ''b'')] = Inr (r2, h2) \<and>
       len r1 = 2 \<and> elems h2 r1 = map Some p \<and> elems h2 r2 = map Some q \<and>
       Equal p q = Inr True"
  proof -
    let ?ab = "[Some (New_key (NStr ''a'')), Some (New_key (NStr ''b''))]"
    have f: "FromString h ''a/b'' = Inr (Slice (length h) 0 2, h @ [?ab])"
      by (simp add: FromString_tokens)
    have n: "New (h @ [?ab]) [ValueElem (NStr ''a''), ValueElem (NStr ''b'')] =
        Inr (Slice (Suc (length h)) 0 2, h @ [?ab] @ [?ab])"
      by (simp add: New_result)
    have el1: "elems (h @ [?ab] @ [?ab]) (Slice (length h) 0 2) =
        map Some [New_key (NStr ''a''), New_key (NStr ''b'')]"
      by simp
    have el2: "elems (h @ [?ab] @ [?ab]) (Slice (Suc (length h)) 0 2) =
        map Some [New_key (NStr ''a''), New_key (NStr ''b'')]"
      by (simp add: nth_append)
    have eq: "Equal [New_key (NStr ''a''), New_key (NStr ''b'')]
        [New_key (NStr ''a''), New_key (NStr ''b'')] = Inr True"
      using Equal_refl_Native [of "[NStr ''a'', NStr ''b'']"] by (simp add: New_key_def)
    have l: "len (Slice (length h) 0 2) = 2" by simp
    show ?thesis using f n el1 el2 eq l by blast
  qed
  show ?thesis using e1 e2 gen total ab by blast
qed

theorem FromString_witness:
  "\<exists>r h' tokens. FromString [] ''/net//iface0/'' = Inr (r, h') \<and>
     strings_Join tokens (CHR ''/'') = ''net//iface0/'' \<and>
     elems h' r = map (\<lambda>t. Some (New_key (NStr t))) tokens"
  using FromString_splits_on_slash [of "[]" "''/net//iface0/''"] by auto

text \<open>
  C10. \<open>FromString\<close> strips at most one leading \<open>'/'\<close>. For every string other than
  \<open>""\<close> and \<open>"/"\<close> the path has one element more than the stripped string has \<open>'/'\<close>
  separators; a separator at the end of the stripped string gives a last element that
  wraps \<open>""\<close>, and two consecutive separators give an element that wraps \<open>""\<close> between
  them. \<open>FromString("a//b")\<close> is \<open>["a", "", "b"]\<close> and \<open>FromString("//")\<close> is \<open>["", ""]\<close>.
\<close>

theorem FromString_one_element_more_than_separators:
  "(str \<noteq> [] \<and> str \<noteq> ''/'' \<longrightarrow>
      (\<exists>r h'. FromString h str = Inr (r, h') \<and>
         len r = Suc (count_list (if hd str = CHR ''/'' then tl str else str) (CHR ''/'')) \<and>
         length (elems h' r) = len r \<and>
         (\<forall>u. (if hd str = CHR ''/'' then tl str else str) = u @ ''/'' \<longrightarrow>
              last (elems h' r) = Some (New_key (NStr []))) \<and>
         (\<forall>u v. (if hd str = CHR ''/'' then tl str else str) = u @ ''//'' @ v \<longrightarrow>
              elems h' r ! Suc (count_list u (CHR ''/'')) = Some (New_key (NStr []))))) \<and>
   (\<exists>r h'. FromString h ''a//b'' = Inr (r, h') \<and>
      elems h' r = [Some (New_key (NStr ''a'')), Some (New_key (NStr [])),
                    Some (New_key (NStr ''b''))]) \<and>
   (\<exists>r h'. FromString h ''//'' = Inr (r, h') \<and>
      elems h' r = [Some (New_key (NStr [])), Some (New_key (NStr []))])"
proof -
  let ?stripped = "if hd str = CHR ''/'' then tl str else str"
  let ?tokens = "strings_Split ?stripped (CHR ''/'')"
  let ?r = "Slice (length h) 0 (length ?tokens)"
  let ?h' = "h @ [map (\<lambda>e. Some (New_key (NStr e))) ?tokens]"
  have gen: "\<exists>r h'. FromString h str = Inr (r, h') \<and>
         len r = Suc (count_list ?stripped (CHR ''/'')) \<and>
         length (elems h' r) = len r \<and>
         (\<forall>u. ?stripped = u @ ''/'' \<longrightarrow> last (elems h' r) = Some (New_key (NStr []))) \<and>
         (\<forall>u v. ?stripped = u @ ''//'' @ v \<longrightarrow>
              elems h' r ! Suc (count_list u (CHR ''/'')) = Some (New_key (NStr [])))"
    if ne: "str \<noteq> [] \<and> str \<noteq> ''/''"
  proof -
    have run: "FromString h str = Inr (?r, ?h')"
      using ne by (intro FromString_tokens) simp_all
    have el: "elems ?h' ?r = map (\<lambda>e. Some (New_key (NStr e))) ?tokens"
      by simp
    have n: "len ?r = Suc (count_list ?stripped (CHR ''/''))"
      by (simp only: len.simps length_strings_Split)
    have ln: "length (elems ?h' ?r) = len ?r"
      by simp
    have trailing: "last (elems ?h' ?r) = Some (New_key (NStr []))"
      if "?stripped = u @ ''/''" for u
    proof -
      have "?tokens = strings_Split u (CHR ''/'') @ [[]]"
        using that strings_Split_append_sep [of u "CHR ''/''" "[]"] by simp
      then show ?thesis by (simp only: el) simp
    qed
    have consecutive: "elems ?h' ?r ! Suc (count_list u (CHR ''/'')) = Some (New_key (NStr []))"
      if "?stripped = u @ ''//'' @ v" for u v
    proof -
      have "?tokens = strings_Split u (CHR ''/'') @ [] # strings_Split v (CHR ''/'')"
        using that strings_Split_append_sep [of u "CHR ''/''" "CHR ''/'' # v"] by simp
      then show ?thesis
        by (simp only: el) (simp add: nth_append length_strings_Split)
    qed
    have "FromString h str = Inr (?r, ?h') \<and>
         len ?r = Suc (count_list ?stripped (CHR ''/'')) \<and>
         length (elems ?h' ?r) = len ?r \<and>
         (\<forall>u. ?stripped = u @ ''/'' \<longrightarrow> last (elems ?h' ?r) = Some (New_key (NStr []))) \<and>
         (\<forall>u v. ?stripped = u @ ''//'' @ v \<longrightarrow>
              elems ?h' ?r ! Suc (count_list u (CHR ''/'')) = Some (New_key (NStr [])))"
      using run n ln trailing consecutive by blast
    then show ?thesis by blast
  qed
  have ex1: "\<exists>r h'. FromString h ''a//b'' = Inr (r, h') \<and>
      elems h' r = [Some (New_key (NStr ''a'')), Some (New_key (NStr [])),
                    Some (New_key (NStr ''b''))]"
    by (simp add: FromString_tokens)
  have ex2: "\<exists>r h'. FromString h ''//'' = Inr (r, h') \<and>
      elems h' r = [Some (New_key (NStr [])), Some (New_key (NStr []))]"
    by (simp add: FromString_tokens)
  show ?thesis using gen ex1 ex2 by blast
qed

theorem FromString_separators_witness:
  "\<exists>r h'. FromString [] ''/a//b/'' = Inr (r, h') \<and> len r = 4 \<and>
     last (elems h' r) = Some (New_key (NStr [])) \<and>
     elems h' r ! 1 = Some (New_key (NStr []))"
proof -
  from FromString_one_element_more_than_separators [of "''/a//b/''" "[]"]
  obtain r h' where run: "FromString [] ''/a//b/'' = Inr (r, h')"
    and n: "len r = Suc (count_list ''a//b/'' (CHR ''/''))"
    and tr: "\<forall>u. ''a//b/'' = u @ ''/'' \<longrightarrow> last (elems h' r) = Some (New_key (NStr []))"
    and co: "\<forall>u v. ''a//b/'' = u @ ''//'' @ v \<longrightarrow>
              elems h' r ! Suc (count_list u (CHR ''/'')) = Some (New_key (NStr []))"
    by auto
  have "last (elems h' r) = Some (New_key (NStr []))"
    using tr [rule_format, of "''a//b''"] by simp
  moreover have "elems h' r ! 1 = Some (New_key (NStr []))"
    using co [rule_format, of "''a''" "''b/''"] by simp
  ultimately show ?thesis using run n by simp
qed

section \<open>Map: Iter and Set\<close>

lemma visit_all_append:
  "visit_all (xs @ ys) visit s =
     (case visit_all xs visit s of
        (Some err, s') \<Rightarrow> (Some err, s')
      | (None, s') \<Rightarrow> visit_all ys visit s')"
  by (induction xs arbitrary: s) (auto split: prod.splits option.splits)

lemma Iter_normal_visit_all:
  "Iter_normal ns visit s = visit_all (map (\<lambda>(n, v). (Native n, v)) ns) visit s"
  by (induction ns arbitrary: s) (auto split: prod.splits option.splits)

lemma Iter_chain_visit_all:
  "Iter_chain c visit s = visit_all (map (\<lambda>(k, v). (Custom k, v)) c) visit s"
  by (induction c arbitrary: s) (auto split: prod.splits option.splits)

lemma Iter_custom_visit_all:
  "Iter_custom bs visit s =
     visit_all (concat (map (\<lambda>(h, chain). map (\<lambda>(k, v). (Custom k, v)) chain) bs)) visit s"
  by (induction bs arbitrary: s)
     (auto simp add: visit_all_append Iter_chain_visit_all split: prod.splits option.splits)

lemma Map_Iter_visit_all: "Map_Iter m visit s = visit_all (entries m) visit s"
  by (simp add: Map_Iter_def entries_def visit_all_append Iter_normal_visit_all
        Iter_custom_visit_all split: prod.splits option.splits)

lemma counting_apply:
  "counting visit k v (c, s) = (case visit k v s of (err, s') \<Rightarrow> (err, (Suc c, s')))"
  by (simp add: counting_def)

lemma visit_all_counting_ok:
  "\<forall>(k, v)\<in>set es. \<forall>s. fst (visit k v s) = None \<Longrightarrow>
   \<exists>s'. visit_all es (counting visit) (c, s) = (None, (c + length es, s')) \<and>
        visit_all es visit s = (None, s')"
proof (induction es arbitrary: c s)
  case Nil
  then show ?case by simp
next
  case (Cons e es)
  obtain k v where e: "e = (k, v)" by (cases e)
  obtain s1 where v1: "visit k v s = (None, s1)"
    using Cons.prems e by (cases "visit k v s") (auto dest: spec [of _ s])
  obtain s' where
    "visit_all es (counting visit) (Suc c, s1) = (None, (Suc c + length es, s'))"
    "visit_all es visit s1 = (None, s')"
    using Cons.IH [of "Suc c" s1] Cons.prems by auto
  then show ?case using e v1 by (simp add: counting_apply)
qed

lemma visit_all_counting_error:
  assumes "\<forall>(k', v')\<in>set pre. \<forall>s. fst (visit k' v' s) = None"
    and "\<forall>s. fst (visit k v s) = Some err"
  shows "\<exists>s'. visit_all (pre @ (k, v) # post) (counting visit) (c, s) =
            (Some err, (c + length pre + 1, s')) \<and>
          visit_all (pre @ (k, v) # post) visit s = (Some err, s') \<and>
          visit_all (pre @ [(k, v)]) visit s = (Some err, s')"
proof -
  obtain s1 where p1: "visit_all pre (counting visit) (c, s) = (None, (c + length pre, s1))"
    and p2: "visit_all pre visit s = (None, s1)"
    using visit_all_counting_ok [OF assms(1), of c s] by blast
  obtain s2 where v2: "visit k v s1 = (Some err, s2)"
    using assms(2) by (cases "visit k v s1") (auto dest: spec [of _ s1])
  show ?thesis
    using p1 p2 v2 by (simp add: visit_all_append counting_apply)
qed

lemma visit_all_recording:
  "visit_all es (\<lambda>k v seen. (None, seen @ [(k, v)])) seen = (None, seen @ es)"
  by (induction es arbitrary: seen) auto

text \<open>
  C5. When the visitor returns nil on every entry, \<open>Iter\<close> invokes it exactly
  \<open>length\<close> times, once on each logical entry, and returns nil. When the visitor
  returns an error on an entry (and nil on those before it), \<open>Iter\<close> returns that very
  error, and the visitor has been invoked on the entries up to that one only: the
  entries after it are not visited. The \<open>length\<close> field is the number of entries, as
  the invariant of the data model says.
\<close>

theorem Map_Iter_visits_all_or_stops_at_error:
  "(length_Map m = int (length (entries m)) \<and>
    (\<forall>(k, v)\<in>set (entries m). \<forall>s. fst ((visit :: ('v, 's, 'e) visitor) k v s) = None) \<longrightarrow>
      (\<exists>count s'. Map_Iter m (counting visit) (0, s) = (None, (count, s')) \<and>
                  int count = length_Map m \<and>
                  Map_Iter m visit s = (None, s'))) \<and>
   Map_Iter m (\<lambda>k v seen. (None :: 'e option, seen @ [(k, v)])) [] = (None, entries m) \<and>
   (entries m = pre @ (k, v) # post \<and>
    (\<forall>(k', v')\<in>set pre. \<forall>s. fst (visit k' v' s) = None) \<and>
    (\<forall>s. fst (visit k v s) = Some err) \<longrightarrow>
      (\<exists>s'. Map_Iter m (counting visit) (0, s) = (Some err, (length pre + 1, s')) \<and>
            Map_Iter m visit s = (Some err, s') \<and>
            visit_all (pre @ [(k, v)]) visit s = (Some err, s')))"
proof (intro conjI impI)
  assume a: "length_Map m = int (length (entries m)) \<and>
    (\<forall>(k, v)\<in>set (entries m). \<forall>s. fst (visit k v s) = None)"
  then obtain s' where
    "visit_all (entries m) (counting visit) (0, s) = (None, (0 + length (entries m), s'))"
    "visit_all (entries m) visit s = (None, s')"
    using visit_all_counting_ok [of "entries m" visit 0 s] by blast
  then show "\<exists>count s'. Map_Iter m (counting visit) (0, s) = (None, (count, s')) \<and>
                  int count = length_Map m \<and>
                  Map_Iter m visit s = (None, s')"
    using a by (simp add: Map_Iter_visit_all)
next
  show "Map_Iter m (\<lambda>k v seen. (None :: 'e option, seen @ [(k, v)])) [] = (None, entries m)"
    by (simp add: Map_Iter_visit_all visit_all_recording)
next
  assume a: "entries m = pre @ (k, v) # post \<and>
    (\<forall>(k', v')\<in>set pre. \<forall>s. fst (visit k' v' s) = None) \<and>
    (\<forall>s. fst (visit k v s) = Some err)"
  then have pre: "\<forall>(k', v')\<in>set pre. \<forall>s. fst (visit k' v' s) = None"
    and err: "\<forall>s. fst (visit k v s) = Some err"
    by blast+
  obtain s' where
    "visit_all (pre @ (k, v) # post) (counting visit) (0, s) = (Some err, (0 + length pre + 1, s'))"
    "visit_all (pre @ (k, v) # post) visit s = (Some err, s')"
    "visit_all (pre @ [(k, v)]) visit s = (Some err, s')"
    using visit_all_counting_error [OF pre err, of post 0 s] by blast
  then show "\<exists>s'. Map_Iter m (counting visit) (0, s) = (Some err, (length pre + 1, s')) \<and>
            Map_Iter m visit s = (Some err, s') \<and>
            visit_all (pre @ [(k, v)]) visit s = (Some err, s')"
    using a by (simp add: Map_Iter_visit_all)
qed












theorem Map_Iter_witness:
  "(\<exists>count s'. Map_Iter
       (Map [] [(1234567890, [(Hashable 1234567890 (NStr ''hashable2''), 42 :: int),
                              (Hashable 1234567890 (NStr ''hashable3''), 42),
                              (Hashable 1234567890 (NStr ''hashable4''), 42)])] 3)
       (counting (\<lambda>k v s. (None :: string option, s))) (0, ()) = (None, (count, s')) \<and>
       int count = 3) \<and>
   (\<exists>s'. Map_Iter
       (Map [] [(1234567890, [(Hashable 1234567890 (NStr ''hashable2''), 42 :: int),
                              (Hashable 1234567890 (NStr ''hashable3''), 42),
                              (Hashable 1234567890 (NStr ''hashable4''), 42)])] 3)
       (counting (\<lambda>k v s.
          (if k = Custom (Hashable 1234567890 (NStr ''hashable3'')) then Some ''stop'' else None, s)))
       (0, ()) = (Some ''stop'', (2, s')))"
proof -
  let ?m = "Map [] [(1234567890, [(Hashable 1234567890 (NStr ''hashable2''), 42 :: int),
                              (Hashable 1234567890 (NStr ''hashable3''), 42),
                              (Hashable 1234567890 (NStr ''hashable4''), 42)])] 3"
  have es: "entries ?m =
      [(Custom (Hashable 1234567890 (NStr ''hashable2'')), 42)] @
      (Custom (Hashable 1234567890 (NStr ''hashable3'')), 42) #
      [(Custom (Hashable 1234567890 (NStr ''hashable4'')), 42)]"
    by (simp add: entries_def)
  have a: "\<exists>count s'. Map_Iter ?m (counting (\<lambda>k v s. (None :: string option, s))) (0, ()) =
        (None, (count, s')) \<and> int count = 3"
    using Map_Iter_visits_all_or_stops_at_error
      [of ?m "\<lambda>k v s. (None :: string option, s)" "()"]
    by (simp add: entries_def)
  have b: "\<exists>s'. Map_Iter ?m
       (counting (\<lambda>k v s.
          (if k = Custom (Hashable 1234567890 (NStr ''hashable3'')) then Some ''stop'' else None, s)))
       (0, ()) = (Some ''stop'', (2, s'))"
    using Map_Iter_visits_all_or_stops_at_error
      [of ?m "\<lambda>k v s.
          (if k = Custom (Hashable 1234567890 (NStr ''hashable3'')) then Some ''stop'' else None, s)"
          "()" "[(Custom (Hashable 1234567890 (NStr ''hashable2'')), 42)]"
          "Custom (Hashable 1234567890 (NStr ''hashable3''))" 42
          "[(Custom (Hashable 1234567890 (NStr ''hashable4'')), 42)]" "''stop''"] es
    by simp
  show ?thesis using a b by blast
qed

end
